theory Spec2Isabelle
  imports Main "HOL-Library.Sublist"
begin

section \<open>Python primitives used by \<^verbatim>\<open>tools/extract_id_blocks_from_json.py\<close>\<close>

text \<open>
  Offsets are Python integers, hence \<^typ>\<open>int\<close>; a document is a \<^typ>\<open>string\<close>.
  The only exception the scanning code can raise is \<^verbatim>\<open>IndexError\<close>, from an indexing
  expression \<^verbatim>\<open>content[i]\<close> with \<^verbatim>\<open>i\<close> outside \<^verbatim>\<open>-len(content) .. len(content)-1\<close>.
\<close>

datatype py_error = IndexError

text \<open>\<^verbatim>\<open>content[i]\<close>: a negative index counts from the end, anything else out of range raises.\<close>

definition str_index :: "string \<Rightarrow> int \<Rightarrow> py_error + char" where
  "str_index content i =
     (if 0 \<le> i \<and> i < int (length content) then Inr (content ! nat i)
      else if - int (length content) \<le> i \<and> i < 0 then Inr (content ! nat (i + int (length content)))
      else Inl IndexError)"

text \<open>\<^verbatim>\<open>content[a:b]\<close>: both bounds are clipped to the string, never raising.\<close>

definition str_slice :: "string \<Rightarrow> int \<Rightarrow> int \<Rightarrow> string" where
  "str_slice content a b =
     (let n = int (length content);
          lo = (if a < 0 then max 0 (a + n) else min a n);
          hi = (if b < 0 then max 0 (b + n) else min b n)
      in take (nat (hi - lo)) (drop (nat lo) content))"

text \<open>
  \<^verbatim>\<open>content.find(sub, start)\<close>: the lowest index \<^verbatim>\<open>i >= start\<close> with
  \<^verbatim>\<open>content[i:i+len(sub)] == sub\<close>, or \<^verbatim>\<open>-1\<close>. \<open>find_at\<close> is the search from a
  start index already clipped; \<open>str_find\<close> clips a negative start as Python does.
\<close>

function find_at :: "string \<Rightarrow> string \<Rightarrow> nat \<Rightarrow> int" where
  "find_at content sub i =
     (if length content < i + length sub then - 1
      else if take (length sub) (drop i content) = sub then int i
      else find_at content sub (Suc i))"
  by pat_completeness auto
termination
  by (relation "measure (\<lambda>(content, sub, i). Suc (length content) - i)") auto

declare find_at.simps [simp del]

definition str_find :: "string \<Rightarrow> string \<Rightarrow> int \<Rightarrow> int" where
  "str_find content sub start =
     (let n = int (length content)
      in find_at content sub (nat (if start < 0 then max 0 (start + n) else start)))"

text \<open>\<^verbatim>\<open>str(i)\<close> for an integer: decimal digits, with a minus sign when negative.\<close>

definition digit_char :: "nat \<Rightarrow> char" where
  "digit_char d = ''0123456789'' ! d"

function str_nat :: "nat \<Rightarrow> string" where
  "str_nat n = (if n < 10 then [digit_char n] else str_nat (n div 10) @ [digit_char (n mod 10)])"
  by pat_completeness auto
termination
  by (relation "measure id") auto

declare str_nat.simps [simp del]

definition str_int :: "int \<Rightarrow> string" where
  "str_int i = (if i < 0 then CHR ''-'' # str_nat (nat (- i)) else str_nat (nat i))"

section \<open>\<^verbatim>\<open>find_all_positions\<close>\<close>

text \<open>The literal searched for: \<^verbatim>\<open>f'"id": "{target_id}"'\<close>.\<close>

definition search_str :: "string \<Rightarrow> string" where
  \<open>search_str target_id = ''"id": "'' @ target_id @ ''"''\<close>

text \<open>
  The \<^verbatim>\<open>while pos != -1\<close> loop; \<open>positions\<close> is the list built so far. The first
  \<^verbatim>\<open>find\<close> has no start argument, that is start \<open>0\<close>.
\<close>

function find_loop :: "string \<Rightarrow> string \<Rightarrow> int \<Rightarrow> int list \<Rightarrow> int list" where
  "find_loop content sub pos positions =
     (if pos \<noteq> - 1
      then find_loop content sub (str_find content sub (pos + 1)) (positions @ [pos])
      else positions)"
  by pat_completeness auto
termination
proof (relation "measure (\<lambda>(content, sub, pos, positions).
         if pos = - 1 then 0
         else if pos < 0 then length content + 3
         else nat (int (length content) + 1 - pos) + 1)")
  show "wf (measure (\<lambda>(content, sub, pos, positions).
         if pos = - 1 then 0
         else if pos < 0 then length content + 3
         else nat (int (length content) + 1 - pos) + 1))"
    by simp
next
  fix content sub :: string and pos :: int and positions :: "int list"
  assume continue: "pos \<noteq> - 1"
  have at_range: "find_at content sub i = - 1 \<or>
      (int i \<le> find_at content sub i \<and> find_at content sub i \<le> int (length content))" for i
  proof (induction content sub i rule: find_at.induct)
    case (1 content sub i)
    then show ?case
      by (cases "length content < i + length sub";
          cases "take (length sub) (drop i content) = sub")
         (auto simp add: find_at.simps [of content sub i])
  qed
  define k where "k = nat (if pos + 1 < 0 then max 0 (pos + 1 + int (length content)) else pos + 1)"
  have eq: "str_find content sub (pos + 1) = find_at content sub k"
    by (simp add: str_find_def k_def Let_def)
  have "pos + 1 \<le> int k" "0 \<le> int k"
    by (auto simp add: k_def)
  with at_range [of k] continue
  show "((content, sub, str_find content sub (pos + 1), positions @ [pos]),
         (content, sub, pos, positions))
        \<in> measure (\<lambda>(content, sub, pos, positions).
            if pos = - 1 then 0
            else if pos < 0 then length content + 3
            else nat (int (length content) + 1 - pos) + 1)"
    unfolding eq by auto
qed

declare find_loop.simps [simp del]

definition find_all_positions :: "string \<Rightarrow> string \<Rightarrow> int list" where
  "find_all_positions content target_id =
     (let sub = search_str target_id
      in find_loop content sub (str_find content sub 0) [])"

section \<open>\<^verbatim>\<open>extract_json_object\<close>\<close>

text \<open>
  The backward loop \<^verbatim>\<open>while object_start >= 0\<close>: it reads \<^verbatim>\<open>content[object_start]\<close>,
  stops on an opening brace and otherwise steps down; it leaves \<open>-1\<close> when it runs out.
\<close>

function backward_scan :: "string \<Rightarrow> int \<Rightarrow> py_error + int" where
  "backward_scan content object_start =
     (if object_start \<ge> 0
      then (case str_index content object_start of
              Inl e \<Rightarrow> Inl e
            | Inr c \<Rightarrow> if c = CHR ''{'' then Inr object_start
                       else backward_scan content (object_start - 1))
      else Inr object_start)"
  by pat_completeness auto
termination
  by (relation "measure (\<lambda>(content, object_start). nat (object_start + 1))") auto

declare backward_scan.simps [simp del]

text \<open>
  The forward loop \<^verbatim>\<open>while object_end < len(content) and bracket_count > 0\<close>: it steps
  first and reads \<^verbatim>\<open>content[object_end]\<close> afterwards. The result is the pair
  \<open>(object_end, bracket_count)\<close> with which the loop is left.
\<close>

function forward_scan :: "string \<Rightarrow> int \<Rightarrow> int \<Rightarrow> py_error + (int \<times> int)" where
  "forward_scan content object_end bracket_count =
     (if object_end < int (length content) \<and> bracket_count > 0
      then (case str_index content (object_end + 1) of
              Inl e \<Rightarrow> Inl e
            | Inr c \<Rightarrow>
                if c = CHR ''{'' then forward_scan content (object_end + 1) (bracket_count + 1)
                else if c = CHR ''}'' then forward_scan content (object_end + 1) (bracket_count - 1)
                else forward_scan content (object_end + 1) bracket_count)
      else Inr (object_end, bracket_count))"
  by pat_completeness auto
termination
  by (relation "measure (\<lambda>(content, object_end, bracket_count).
        nat (int (length content) - object_end))") auto

declare forward_scan.simps [simp del]

text \<open>
  The result is the triple the source returns: \<open>(Some text, start, end)\<close>, or
  \<open>(None, -1, -1)\<close> for \<^verbatim>\<open>return None, -1, -1\<close>.
\<close>

definition extract_json_object :: "string \<Rightarrow> int \<Rightarrow> py_error + (string option \<times> int \<times> int)" where
  "extract_json_object content start_pos =
     (case backward_scan content start_pos of
        Inl e \<Rightarrow> Inl e
      | Inr object_start \<Rightarrow>
          (case forward_scan content start_pos 1 of
             Inl e \<Rightarrow> Inl e
           | Inr (object_end, bracket_count) \<Rightarrow>
               if bracket_count = 0
               then Inr (Some (str_slice content object_start (object_end + 1)),
                         object_start, object_end)
               else Inr (None, - 1, - 1)))"

section \<open>\<^verbatim>\<open>main\<close>\<close>

text \<open>
  What \<^verbatim>\<open>open(filename).read()\<close> does is the environment's: the text of the file, a
  \<^verbatim>\<open>FileNotFoundError\<close>, or another exception with its message \<^verbatim>\<open>str(e)\<close>.
\<close>

datatype open_result = Opened string | FileNotFoundError | OtherException string

text \<open>One element of the printed array, and the value the program prints.\<close>

record 'j result =
  first_line :: string
  last_line :: string
  data :: 'j

datatype 'j printed = JsonArray "'j result list" | JsonError string

text \<open>
  The body of \<^verbatim>\<open>for pos in positions\<close> on the loop state \<open>(results, found_objects)\<close>.
  \<^verbatim>\<open>json.loads\<close> is the parameter \<open>json_loads\<close>, \<open>None\<close> standing for
  \<^verbatim>\<open>JSONDecodeError\<close>. \<^verbatim>\<open>if obj:\<close> holds for a string that is neither \<^verbatim>\<open>None\<close> nor
  empty. The key is added to \<open>found_objects\<close> before the text is parsed.
\<close>

fun loop_body ::
  "(string \<Rightarrow> 'j option) \<Rightarrow> string \<Rightarrow> int \<Rightarrow>
   'j result list \<times> (int \<times> int) set \<Rightarrow> py_error + ('j result list \<times> (int \<times> int) set)" where
  "loop_body json_loads content pos (results, found_objects) =
     (case extract_json_object content pos of
        Inl e \<Rightarrow> Inl e
      | Inr (obj, start, end) \<Rightarrow>
          (case obj of
             None \<Rightarrow> Inr (results, found_objects)
           | Some text \<Rightarrow>
               if text \<noteq> [] then
                 (if (start, end) \<notin> found_objects then
                    (case json_loads text of
                       Some parsed_obj \<Rightarrow>
                         Inr (results @ [\<lparr>first_line = str_int start, last_line = str_int end,
                                            data = parsed_obj\<rparr>],
                              insert (start, end) found_objects)
                     | None \<Rightarrow> Inr (results, insert (start, end) found_objects))
                  else Inr (results, found_objects))
               else Inr (results, found_objects)))"

text \<open>The loop itself: an \<^verbatim>\<open>IndexError\<close> of an extraction leaves it.\<close>

fun main_loop ::
  "(string \<Rightarrow> 'j option) \<Rightarrow> string \<Rightarrow> int list \<Rightarrow>
   'j result list \<times> (int \<times> int) set \<Rightarrow> py_error + ('j result list \<times> (int \<times> int) set)" where
  "main_loop json_loads content [] st = Inr st"
| "main_loop json_loads content (pos # rest) st =
     (case loop_body json_loads content pos st of
        Inl e \<Rightarrow> Inl e
      | Inr st' \<Rightarrow> main_loop json_loads content rest st')"

text \<open>\<^verbatim>\<open>str(e)\<close> of the \<^verbatim>\<open>IndexError\<close> a string index raises.\<close>

definition str_error :: "py_error \<Rightarrow> string" where
  "str_error e = (case e of IndexError \<Rightarrow> ''string index out of range'')"

text \<open>
  The part of \<^verbatim>\<open>main\<close> after the file has been read, and \<^verbatim>\<open>main\<close> itself, with the
  file system \<open>fs\<close> giving the outcome of opening and reading a path.
\<close>

definition extract_blocks :: "(string \<Rightarrow> 'j option) \<Rightarrow> string \<Rightarrow> string \<Rightarrow> 'j printed" where
  "extract_blocks json_loads content target_id =
     (let positions = find_all_positions content target_id
      in if positions = [] then JsonArray []
         else (case main_loop json_loads content positions ([], {}) of
                 Inl e \<Rightarrow> JsonError (str_error e)
               | Inr (results, found_objects) \<Rightarrow> JsonArray results))"

definition main ::
  "(string \<Rightarrow> 'j option) \<Rightarrow> (string \<Rightarrow> open_result) \<Rightarrow> string \<Rightarrow> string \<Rightarrow> 'j printed" where
  "main json_loads fs filename target_id =
     (case fs filename of
        Opened content \<Rightarrow> extract_blocks json_loads content target_id
      | FileNotFoundError \<Rightarrow> JsonError (''File '' @ [CHR 0x27] @ filename @ [CHR 0x27] @ '' not found'')
      | OtherException msg \<Rightarrow> JsonError msg)"

section \<open>A model of \<^verbatim>\<open>json.loads\<close>\<close>

text \<open>
  \<^verbatim>\<open>json.loads\<close> belongs to the Python standard library. The functions of \<open>main\<close> take
  it as a parameter; the concrete examples use the decoder below, which follows
  \<^verbatim>\<open>json/decoder.py\<close> and \<^verbatim>\<open>json/scanner.py\<close> function by function on the remaining
  input. It decides which texts are accepted exactly as the library does with its default
  settings, and returns the syntax tree of the value: numbers and strings are kept as
  their source text (escapes are checked, not decoded), an object as the list of its
  members in source order. \<open>None\<close> stands for \<^verbatim>\<open>JSONDecodeError\<close>.
\<close>

datatype json =
    JNull | JBool bool | JNumber string | JConstant string | JString string
  | JArray "json list" | JObject "(string \<times> json) list"

text \<open>\<^verbatim>\<open>WHITESPACE\<close> is space, tab, line feed and carriage return.\<close>

definition is_ws :: "char \<Rightarrow> bool" where
  "is_ws c = (c = CHR 0x20 \<or> c = CHR 0x09 \<or> c = CHR 0x0A \<or> c = CHR 0x0D)"

definition skip_ws :: "string \<Rightarrow> string" where
  "skip_ws cs = dropWhile is_ws cs"

definition is_digit :: "char \<Rightarrow> bool" where
  "is_digit c = (c \<in> set ''0123456789'')"

definition is_hex :: "char \<Rightarrow> bool" where
  "is_hex c = (c \<in> set ''0123456789abcdefABCDEF'')"

definition is_control :: "char \<Rightarrow> bool" where
  "is_control c = ((of_char c :: nat) < 32)"

text \<open>
  \<^verbatim>\<open>scanstring\<close> in strict mode, from just after the opening quote: the body up to the
  closing quote and what follows it. A control character, an unknown escape, a
  \<^verbatim>\<open>\u\<close> not followed by four hexadecimal digits, and a missing closing quote fail.
\<close>

fun scanstring :: "string \<Rightarrow> (string \<times> string) option" where
  "scanstring [] = None"
| "scanstring (c # cs) =
     (if c = CHR 0x22 then Some ([], cs)
      else if c = CHR 0x5C then
        (case cs of
           [] \<Rightarrow> None
         | esc # cs' \<Rightarrow>
             if esc = CHR ''u'' then
               (if 4 \<le> length cs' \<and> list_all is_hex (take 4 cs')
                then map_option (\<lambda>(body, rest). (c # esc # take 4 cs' @ body, rest))
                       (scanstring (drop 4 cs'))
                else None)
             else if esc \<in> set [CHR 0x22, CHR 0x5C, CHR ''/'', CHR ''b'', CHR ''f'', CHR ''n'', CHR ''r'', CHR ''t'']
             then map_option (\<lambda>(body, rest). (c # esc # body, rest)) (scanstring cs')
             else None)
      else if is_control c then None
      else map_option (\<lambda>(body, rest). (c # body, rest)) (scanstring cs))"

text \<open>
  \<^verbatim>\<open>NUMBER_RE\<close>: an optional minus sign, \<^verbatim>\<open>0\<close> or a digit string without leading zero,
  an optional fraction and an optional exponent, each taken only when complete.
\<close>

definition match_frac :: "string \<Rightarrow> string \<times> string" where
  "match_frac cs =
     (case cs of
        c # r \<Rightarrow>
          if c = CHR ''.'' \<and> takeWhile is_digit r \<noteq> []
          then (c # takeWhile is_digit r, dropWhile is_digit r) else ([], cs)
      | [] \<Rightarrow> ([], cs))"

definition match_exp :: "string \<Rightarrow> string \<times> string" where
  "match_exp cs =
     (case cs of
        c # r \<Rightarrow>
          if c = CHR ''e'' \<or> c = CHR ''E'' then
            (let sign = (case r of s # _ \<Rightarrow> if s = CHR ''+'' \<or> s = CHR ''-'' then [s] else [] | [] \<Rightarrow> []);
                 r' = drop (length sign) r
             in if takeWhile is_digit r' \<noteq> []
                then (c # sign @ takeWhile is_digit r', dropWhile is_digit r') else ([], cs))
          else ([], cs)
      | [] \<Rightarrow> ([], cs))"

definition match_number :: "string \<Rightarrow> (string \<times> string) option" where
  "match_number cs =
     (let sign = (case cs of c # _ \<Rightarrow> if c = CHR ''-'' then [c] else [] | [] \<Rightarrow> []);
          r0 = drop (length sign) cs
      in case r0 of
           [] \<Rightarrow> None
         | d # r1 \<Rightarrow>
             if is_digit d then
               (let ds = (if d = CHR ''0'' then [] else takeWhile is_digit r1);
                    r2 = drop (length ds) r1;
                    (frac, r3) = match_frac r2;
                    (ex, r4) = match_exp r3
                in Some (sign @ d # ds @ frac @ ex, r4))
             else None)"

text \<open>
  \<open>scan_once\<close> decodes one value; \<open>parse_members\<close> is the loop of \<^verbatim>\<open>JSONObject\<close>,
  entered after the opening quote of a key, \<open>parse_elements\<close> the loop of
  \<^verbatim>\<open>JSONArray\<close>, entered at a value. The two tests on lengths are there for the
  termination proof: they hold whenever they are reached, since every value takes at
  least one character (\<open>parse_members_unguarded\<close> and \<open>parse_elements_unguarded\<close> below).
  The limits of the interpreter (recursion depth, length of integer literals) are not
  modelled.
\<close>

function (sequential) scan_once :: "string \<Rightarrow> (json \<times> string) option"
  and parse_members :: "string \<Rightarrow> ((string \<times> json) list \<times> string) option"
  and parse_elements :: "string \<Rightarrow> (json list \<times> string) option" where
  "scan_once [] = None"
| "scan_once (c # cs) =
     (if c = CHR 0x22 then
        (case scanstring cs of None \<Rightarrow> None | Some (body, r) \<Rightarrow> Some (JString body, r))
      else if c = CHR ''{'' then
        (case skip_ws cs of
           [] \<Rightarrow> None
         | d # r \<Rightarrow>
             if d = CHR ''}'' then Some (JObject [], r)
             else if d = CHR 0x22 then
               (case parse_members r of None \<Rightarrow> None | Some (pairs, r') \<Rightarrow> Some (JObject pairs, r'))
             else None)
      else if c = CHR ''['' then
        (case skip_ws cs of
           [] \<Rightarrow> None
         | d # r \<Rightarrow>
             if d = CHR '']'' then Some (JArray [], r)
             else (case parse_elements (d # r) of
                     None \<Rightarrow> None | Some (values, r') \<Rightarrow> Some (JArray values, r')))
      else if prefix ''null'' (c # cs) then Some (JNull, drop 4 (c # cs))
      else if prefix ''true'' (c # cs) then Some (JBool True, drop 4 (c # cs))
      else if prefix ''false'' (c # cs) then Some (JBool False, drop 5 (c # cs))
      else (case match_number (c # cs) of
              Some (lexeme, r) \<Rightarrow> Some (JNumber lexeme, r)
            | None \<Rightarrow>
                if prefix ''NaN'' (c # cs) then Some (JConstant ''NaN'', drop 3 (c # cs))
                else if prefix ''Infinity'' (c # cs) then Some (JConstant ''Infinity'', drop 8 (c # cs))
                else if prefix ''-Infinity'' (c # cs) then Some (JConstant ''-Infinity'', drop 9 (c # cs))
                else None))"
| "parse_members cs =
     (case scanstring cs of
        None \<Rightarrow> None
      | Some (key, r) \<Rightarrow>
          (case skip_ws r of
             [] \<Rightarrow> None
           | c # r1 \<Rightarrow>
               if c = CHR '':'' \<and> length r1 < length cs then
                 (case scan_once (skip_ws r1) of
                    None \<Rightarrow> None
                  | Some (v, r2) \<Rightarrow>
                      (case skip_ws r2 of
                         [] \<Rightarrow> None
                       | d # r3 \<Rightarrow>
                           if d = CHR ''}'' then Some ([(key, v)], r3)
                           else if d = CHR '','' then
                             (case skip_ws r3 of
                                [] \<Rightarrow> None
                              | q # r4 \<Rightarrow>
                                  if q = CHR 0x22 \<and> length r4 < length cs then
                                    (case parse_members r4 of
                                       None \<Rightarrow> None
                                     | Some (pairs, r5) \<Rightarrow> Some ((key, v) # pairs, r5))
                                  else None)
                           else None))
               else None))"
| "parse_elements cs =
     (case scan_once cs of
        None \<Rightarrow> None
      | Some (v, r) \<Rightarrow>
          (case skip_ws r of
             [] \<Rightarrow> None
           | d # r1 \<Rightarrow>
               if d = CHR '']'' then Some ([v], r1)
               else if d = CHR '','' \<and> length r1 < length cs then
                 (case parse_elements (skip_ws r1) of
                    None \<Rightarrow> None
                  | Some (values, r2) \<Rightarrow> Some (v # values, r2))
               else None))"
  by pat_completeness auto
termination
proof -
  have skip_le: "length (skip_ws xs) \<le> length xs" for xs
    by (simp add: skip_ws_def length_dropWhile_le)
  have skip_Cons: "length r < length xs" if "skip_ws xs = d # r" for xs r d
    using skip_le [of xs] that by simp
  have skip_less: "length (skip_ws r) < length xs" if "length r < length xs" for xs r
    using skip_le [of r] that by simp
  show ?thesis
    by (relation "measure (\<lambda>x. case x of
          Inl cs \<Rightarrow> 2 * length cs
        | Inr (Inl cs) \<Rightarrow> 2 * length cs + 1
        | Inr (Inr cs) \<Rightarrow> 2 * length cs + 1)")
       (auto dest: skip_Cons skip_less)
qed

declare scan_once.simps [simp del] parse_members.simps [simp del] parse_elements.simps [simp del]

text \<open>\<^verbatim>\<open>decode\<close>: one value between optional whitespace, and nothing after it.\<close>

definition json_loads :: "string \<Rightarrow> json option" where
  "json_loads s =
     (case scan_once (skip_ws s) of
        None \<Rightarrow> None
      | Some (obj, r) \<Rightarrow> if skip_ws r = [] then Some obj else None)"

section \<open>Notions used to state the properties\<close>

text \<open>A file system holding one file.\<close>

definition single_file :: "string \<Rightarrow> string \<Rightarrow> string \<Rightarrow> open_result" where
  "single_file name content path = (if path = name then Opened content else FileNotFoundError)"

text \<open>
  \<open>sub\<close> occurs in \<open>content\<close> at offset \<open>i\<close>; the offsets of all occurrences, in
  ascending order.
\<close>

definition occurs_at :: "string \<Rightarrow> string \<Rightarrow> nat \<Rightarrow> bool" where
  "occurs_at content sub i =
     (i + length sub \<le> length content \<and> take (length sub) (drop i content) = sub)"

definition match_offsets :: "string \<Rightarrow> string \<Rightarrow> nat list" where
  "match_offsets content sub = filter (occurs_at content sub) [0..<Suc (length content)]"

text \<open>
  The pair of strings an element of the output carries, and the pair an extraction with
  the offsets \<open>(start, end)\<close> gives rise to.
\<close>

definition result_key :: "'j result \<Rightarrow> string \<times> string" where
  "result_key r = (first_line r, last_line r)"

definition key_text :: "int \<times> int \<Rightarrow> string \<times> string" where
  "key_text k = (str_int (fst k), str_int (snd k))"

text \<open>
  The invariant of the loop of \<open>main\<close>: the elements collected so far have distinct
  keys, each one stems from a key in \<open>found_objects\<close> whose text parses to its data, and
  every key in \<open>found_objects\<close> whose text parses has its element.
\<close>

definition loop_inv ::
  "(string \<Rightarrow> 'j option) \<Rightarrow> string \<Rightarrow> 'j result list \<times> (int \<times> int) set \<Rightarrow> bool" where
  "loop_inv loads content st =
     (distinct (map result_key (fst st)) \<and>
      (\<forall>r \<in> set (fst st). \<exists>k \<in> snd st.
         loads (str_slice content (fst k) (snd k + 1)) = Some (data r) \<and>
         r = \<lparr>first_line = str_int (fst k), last_line = str_int (snd k), data = data r\<rparr>) \<and>
      (\<forall>k \<in> snd st. loads (str_slice content (fst k) (snd k + 1)) \<noteq> None \<longrightarrow>
         key_text k \<in> result_key ` set (fst st)))"

text \<open>The outcomes of opening a file that are not its text.\<close>

fun unreadable :: "open_result \<Rightarrow> bool" where
  "unreadable (Opened content) = False"
| "unreadable FileNotFoundError = True"
| "unreadable (OtherException msg) = True"

text \<open>
  What a character and a text add to the nesting depth: opening braces minus closing
  braces. The block from
  \<open>s\<close> to \<open>e\<close> is balanced when it starts with an opening brace, its depth is \<open>0\<close>,
  and the depth of each of its proper prefixes is positive, so that the brace at \<open>e\<close>
  is the one closing the brace at \<open>s\<close>.
\<close>

definition brace_delta :: "char \<Rightarrow> int" where
  "brace_delta c = (if c = CHR ''{'' then 1 else if c = CHR ''}'' then - 1 else 0)"

fun brace_depth :: "string \<Rightarrow> int" where
  "brace_depth [] = 0"
| "brace_depth (c # cs) = brace_delta c + brace_depth cs"

definition balanced_block :: "string \<Rightarrow> nat \<Rightarrow> nat \<Rightarrow> bool" where
  "balanced_block content s e =
     (s < e \<and> e < length content \<and> content ! s = CHR ''{'' \<and>
      brace_depth (take (Suc e - s) (drop s content)) = 0 \<and>
      list_all (\<lambda>k. 0 < brace_depth (take (Suc k - s) (drop s content))) [s..<e])"

text \<open>Matches of length \<open>n\<close> at the listed offsets do not overlap.\<close>

fun non_overlapping :: "nat \<Rightarrow> int list \<Rightarrow> bool" where
  "non_overlapping n (a # b # rest) = (a + int n \<le> b \<and> non_overlapping n (b # rest))"
| "non_overlapping n rest = True"

section \<open>Properties of the search\<close>

lemma filter_upt_Cons:
  "filter P [i..<m] = j # rest \<Longrightarrow> i \<le> j \<and> j < m \<and> P j \<and> rest = filter P [Suc j..<m]"
proof (induction "m - i" arbitrary: i)
  case 0
  then show ?case by simp
next
  case (Suc d)
  then have lt: "i < m" by simp
  then have unfold: "[i..<m] = i # [Suc i..<m]" by (simp add: upt_rec)
  show ?case
  proof (cases "P i")
    case True
    from Suc.prems have "filter P (i # [Suc i..<m]) = j # rest"
      by (simp only: unfold [symmetric])
    with True have "i = j" "rest = filter P [Suc i..<m]" by auto
    with True lt show ?thesis by simp
  next
    case False
    from Suc.prems have "filter P (i # [Suc i..<m]) = j # rest"
      by (simp only: unfold [symmetric])
    with False have "filter P [Suc i..<m] = j # rest" by simp
    moreover from Suc.hyps have "d = m - Suc i" by simp
    ultimately have "Suc i \<le> j \<and> j < m \<and> P j \<and> rest = filter P [Suc j..<m]"
      using Suc.hyps(1) by blast
    then show ?thesis by simp
  qed
qed

lemma find_at_first_match:
  "find_at content sub i =
     (case filter (occurs_at content sub) [i..<Suc (length content)] of
        [] \<Rightarrow> - 1 | j # rest \<Rightarrow> int j)"
proof (induction content sub i rule: find_at.induct)
  case (1 content sub i)
  show ?case
  proof (cases "length content < i + length sub")
    case True
    then have "\<not> occurs_at content sub k" if "i \<le> k" for k
      using that by (simp add: occurs_at_def)
    then have "filter (occurs_at content sub) [i..<Suc (length content)] = []"
      by (auto simp add: filter_empty_conv simp del: upt_Suc)
    with True show ?thesis
      by (simp add: find_at.simps [of content sub i])
  next
    case False
    then have unfold: "[i..<Suc (length content)] = i # [Suc i..<Suc (length content)]"
      by (simp add: upt_rec [of i])
    show ?thesis
    proof (cases "take (length sub) (drop i content) = sub")
      case True
      with False have "occurs_at content sub i" by (simp add: occurs_at_def)
      with True False unfold show ?thesis
        by (simp add: find_at.simps [of content sub i])
    next
      case no_match: False
      with False have "\<not> occurs_at content sub i" by (simp add: occurs_at_def)
      with no_match False unfold "1.IH" show ?thesis
        by (simp add: find_at.simps [of content sub i])
    qed
  qed
qed

lemma str_find_nonneg: "0 \<le> start \<Longrightarrow> str_find content sub start = find_at content sub (nat start)"
  by (simp add: str_find_def)

lemma find_loop_all_matches:
  "find_loop content sub (find_at content sub i) acc =
     acc @ map int (filter (occurs_at content sub) [i..<Suc (length content)])"
proof (induction "Suc (length content) - i" arbitrary: i acc rule: less_induct)
  case less
  show ?case
  proof (cases "filter (occurs_at content sub) [i..<Suc (length content)]")
    case Nil
    then have "find_at content sub i = - 1" by (simp add: find_at_first_match)
    with Nil show ?thesis by (simp add: find_loop.simps)
  next
    case (Cons j rest)
    then have pos: "find_at content sub i = int j" by (simp add: find_at_first_match)
    from filter_upt_Cons [OF Cons]
    have j: "i \<le> j" "j < Suc (length content)"
      and rest: "rest = filter (occurs_at content sub) [Suc j..<Suc (length content)]"
      by simp_all
    have next_pos: "str_find content sub (int j + 1) = find_at content sub (Suc j)"
      by (simp add: str_find_nonneg nat_add_distrib)
    have "find_loop content sub (int j) acc =
          find_loop content sub (find_at content sub (Suc j)) (acc @ [int j])"
      by (subst find_loop.simps) (simp add: next_pos)
    also have "\<dots> = (acc @ [int j]) @ map int rest"
      unfolding rest using j by (intro less.hyps) simp
    finally show ?thesis unfolding pos Cons by simp
  qed
qed

lemma find_all_positions_eq:
  "find_all_positions content target_id = map int (match_offsets content (search_str target_id))"
  by (simp add: find_all_positions_def match_offsets_def str_find_nonneg
      find_loop_all_matches [where acc = "[]", simplified])

lemma sorted_match_offsets: "sorted_wrt (<) (map int (match_offsets content sub))"
proof -
  have "sorted_wrt (<) (match_offsets content sub)"
    unfolding match_offsets_def by (rule sorted_wrt_filter) (rule sorted_wrt_upt)
  then show ?thesis by (simp add: sorted_wrt_map)
qed

lemma occurs_at_sublist: "occurs_at content sub i \<Longrightarrow> sublist sub content"
proof -
  assume "occurs_at content sub i"
  then have "take (length sub) (drop i content) = sub" by (simp add: occurs_at_def)
  then have "drop i content = sub @ drop (length sub) (drop i content)"
    by (metis append_take_drop_id)
  then have "content = take i content @ sub @ drop (length sub) (drop i content)"
    by (metis append_take_drop_id)
  then show ?thesis unfolding sublist_def by blast
qed

lemma no_sublist_no_match: "\<not> sublist sub content \<Longrightarrow> match_offsets content sub = []"
  by (auto simp add: match_offsets_def filter_empty_conv dest: occurs_at_sublist)

lemma extract_blocks_no_match:
  "find_all_positions content target_id = [] \<Longrightarrow>
   extract_blocks loads content target_id = JsonArray []"
  by (simp add: extract_blocks_def)

lemma main_opened:
  "fs filename = Opened content \<Longrightarrow>
   main loads fs filename target_id = extract_blocks loads content target_id"
  by (simp add: main_def)

text \<open>
  C7, as amended. \<open>find_all_positions\<close> searches the literal repeatedly from the start
  of the document, resuming one character after each match: it returns the offset of
  every occurrence of the literal, occurrences that overlap an earlier one included, in
  strictly ascending order. A document without an occurrence gives the empty list; no
  input gives an error.
\<close>

theorem find_all_positions_every_offset:
  "find_all_positions content target_id =
     map int (match_offsets content (search_str target_id)) \<and>
   sorted_wrt (<) (find_all_positions content target_id)"
  by (simp add: find_all_positions_eq sorted_match_offsets)

text \<open>
  C7 as stated fails: the literal for the id \<open>a\<close> has nine characters, and in the
  document below it occurs at offsets 0 and 8, sharing a quote. Both offsets are returned.
\<close>

theorem find_all_positions_overlapping:
  \<open>\<not> non_overlapping (length (search_str ''a''))
       (find_all_positions ''"id": "a"id": "a"'' ''a'')\<close>
  by code_simp

text \<open>
  C10. The literal searched for is the quoted key \<open>id\<close>, a colon, one space and the
  quoted value. A document in which this exact text does not occur has no match, and the
  program prints the empty array.
\<close>

theorem literal_is_exact:
  assumes "fs filename = Opened content"
    and "\<not> sublist (search_str target_id) content"
  shows \<open>search_str target_id = ''"id": "'' @ target_id @ ''"'' \<and>
         find_all_positions content target_id = [] \<and>
         main loads fs filename target_id = JsonArray []\<close>
proof -
  from assms(2) have "find_all_positions content target_id = []"
    by (simp add: find_all_positions_eq no_sublist_no_match)
  with assms(1) show ?thesis
    by (simp add: search_str_def main_opened extract_blocks_no_match)
qed

theorem literal_is_exact_witness:
  \<open>single_file ''votes.json'' ''{"id":"42"}'' ''votes.json'' = Opened ''{"id":"42"}'' \<and>
   \<not> sublist (search_str ''42'') ''{"id":"42"}'' \<and>
   main json_loads (single_file ''votes.json'' ''{"id":"42"}'') ''votes.json'' ''42'' = JsonArray []\<close>
proof -
  have opened: \<open>single_file ''votes.json'' ''{"id":"42"}'' ''votes.json'' = Opened ''{"id":"42"}''\<close>
    by (simp add: single_file_def)
  have absent: \<open>\<not> sublist (search_str ''42'') ''{"id":"42"}''\<close>
    by (simp add: search_str_def sublist_Cons_right)
  from literal_is_exact [where fs = \<open>single_file ''votes.json'' ''{"id":"42"}''\<close>
      and filename = "''votes.json''" and loads = json_loads, OF opened absent] opened absent
  show ?thesis by simp
qed

text \<open>
  C9. The printed value depends on the text of the document and on the id only: two
  runs that read the same text print the same value, namely the one \<open>extract_blocks\<close>
  computes from the text and the id.
\<close>

theorem extraction_deterministic:
  assumes "fsa filename_a = Opened content"
    and "fsb filename_b = Opened content"
  shows "main loads fsa filename_a target_id = main loads fsb filename_b target_id \<and>
         main loads fsa filename_a target_id = extract_blocks loads content target_id"
  using assms by (simp add: main_opened)

theorem extraction_deterministic_witness:
  \<open>single_file ''a.json'' ''{"id": "1"}'' ''a.json'' = Opened ''{"id": "1"}'' \<and>
   single_file ''b.json'' ''{"id": "1"}'' ''b.json'' = Opened ''{"id": "1"}'' \<and>
   main json_loads (single_file ''a.json'' ''{"id": "1"}'') ''a.json'' ''1'' =
   main json_loads (single_file ''b.json'' ''{"id": "1"}'') ''b.json'' ''1''\<close>
proof -
  have a: \<open>single_file ''a.json'' ''{"id": "1"}'' ''a.json'' = Opened ''{"id": "1"}''\<close>
    by (simp add: single_file_def)
  have b: \<open>single_file ''b.json'' ''{"id": "1"}'' ''b.json'' = Opened ''{"id": "1"}''\<close>
    by (simp add: single_file_def)
  from extraction_deterministic [where fsa = \<open>single_file ''a.json'' ''{"id": "1"}''\<close>
      and filename_a = "''a.json''" and fsb = \<open>single_file ''b.json'' ''{"id": "1"}''\<close>
      and filename_b = "''b.json''" and loads = json_loads and target_id = "''1''", OF a b] a b
  show ?thesis by simp
qed

text \<open>
  C5. When the file cannot be opened or read, the program prints an error object and
  no array. A document that is read and has no match gives the empty array, which is a
  different value.
\<close>

theorem unreadable_document_is_error:
  assumes "unreadable (fs filename)"
    and "fs' filename' = Opened content"
    and "find_all_positions content target_id' = []"
  shows "(\<exists>msg. main loads fs filename target_id = JsonError msg) \<and>
         main loads fs' filename' target_id' = JsonArray [] \<and>
         main loads fs filename target_id \<noteq> main loads fs' filename' target_id'"
proof -
  from assms(1) have error: "\<exists>msg. main loads fs filename target_id = JsonError msg"
    by (cases "fs filename") (simp_all add: main_def)
  from assms(2,3) have empty: "main loads fs' filename' target_id' = JsonArray []"
    by (simp add: main_opened extract_blocks_no_match)
  from error empty show ?thesis by auto
qed

theorem unreadable_document_is_error_witness:
  \<open>unreadable (single_file ''votes.json'' ''{}'' ''missing.json'') \<and>
   single_file ''votes.json'' ''{}'' ''votes.json'' = Opened ''{}'' \<and>
   find_all_positions ''{}'' ''1'' = [] \<and>
   main json_loads (single_file ''votes.json'' ''{}'') ''missing.json'' ''1'' =
     JsonError (''File '' @ [CHR 0x27] @ ''missing.json'' @ [CHR 0x27] @ '' not found'') \<and>
   main json_loads (single_file ''votes.json'' ''{}'') ''votes.json'' ''1'' = JsonArray []\<close>
proof -
  have missing: "unreadable (single_file ''votes.json'' ''{}'' ''missing.json'')"
    by (simp add: single_file_def)
  have opened: "single_file ''votes.json'' ''{}'' ''votes.json'' = Opened ''{}''"
    by (simp add: single_file_def)
  have no_match: "find_all_positions ''{}'' ''1'' = []"
    by code_simp
  have message: \<open>main json_loads (single_file ''votes.json'' ''{}'') ''missing.json'' ''1'' =
     JsonError (''File '' @ [CHR 0x27] @ ''missing.json'' @ [CHR 0x27] @ '' not found'')\<close>
    by (simp add: main_def single_file_def)
  from unreadable_document_is_error [where fs = "single_file ''votes.json'' ''{}''"
      and filename = "''missing.json''" and fs' = "single_file ''votes.json'' ''{}''"
      and filename' = "''votes.json''" and loads = json_loads and target_id = "''1''",
      OF missing opened no_match] missing opened no_match message
  show ?thesis by simp
qed

section \<open>Properties of the model of \<^verbatim>\<open>json.loads\<close>\<close>

lemma skip_ws_length: "length (skip_ws cs) \<le> length cs"
  by (simp add: skip_ws_def length_dropWhile_le)

lemma skip_ws_Cons_length: "skip_ws cs = c # r \<Longrightarrow> length r < length cs"
  using skip_ws_length [of cs] by simp

lemma scanstring_consumes: "scanstring cs = Some (body, r) \<Longrightarrow> length r < length cs"
proof (induction "length cs" arbitrary: cs body r rule: less_induct)
  case less
  from less.prems obtain c cs' where cs: "cs = c # cs'"
    by (cases cs) simp_all
  from less.prems have "r = cs' \<or>
      (\<exists>rest b. scanstring rest = Some (b, r) \<and> length rest \<le> length cs')"
    unfolding cs
    by (fastforce split: if_splits list.splits)
  then show ?case
  proof
    assume "r = cs'"
    with cs show ?thesis by simp
  next
    assume "\<exists>rest b. scanstring rest = Some (b, r) \<and> length rest \<le> length cs'"
    then obtain rest b where "scanstring rest = Some (b, r)" and "length rest \<le> length cs'"
      by blast
    with less.hyps [of rest b r] cs show ?thesis by simp
  qed
qed

lemma match_frac_length: "match_frac cs = (f, r) \<Longrightarrow> length r \<le> length cs"
  by (auto simp add: match_frac_def length_dropWhile_le le_SucI split: list.splits if_splits)

lemma match_exp_length: "match_exp cs = (x, r) \<Longrightarrow> length r \<le> length cs"
  by (auto simp add: match_exp_def Let_def length_dropWhile_le le_SucI
      split: list.splits if_splits)

lemma match_number_consumes: "match_number cs = Some (lexeme, r) \<Longrightarrow> length r < length cs"
proof -
  assume m: "match_number cs = Some (lexeme, r)"
  define sign where "sign = (case cs of c # _ \<Rightarrow> if c = CHR ''-'' then [c] else [] | [] \<Rightarrow> [])"
  from m obtain d r1 where r0: "drop (length sign) cs = d # r1"
    by (auto simp add: match_number_def Let_def sign_def split: list.splits if_splits)
  define ds where "ds = (if d = CHR ''0'' then [] else takeWhile is_digit r1)"
  obtain frac r3 where frac: "match_frac (drop (length ds) r1) = (frac, r3)"
    by (cases "match_frac (drop (length ds) r1)")
  obtain ex r4 where ex: "match_exp r3 = (ex, r4)"
    by (cases "match_exp r3")
  from m r0 frac ex have "r = r4"
    by (auto simp add: match_number_def Let_def sign_def [symmetric] ds_def [symmetric]
        split: if_splits)
  moreover from match_exp_length [OF ex] match_frac_length [OF frac]
  have "length r4 \<le> length r1" by simp
  moreover from r0 have "length (drop (length sign) cs) = Suc (length r1)" by simp
  then have "length r1 < length cs" by simp
  ultimately show ?thesis by simp
qed

lemma decoder_consumes:
  "(scan_once cs = Some (v, r) \<longrightarrow> length r < length cs) \<and>
   (parse_members cs = Some (ps, r) \<longrightarrow> length r < length cs) \<and>
   (parse_elements cs = Some (vs, r) \<longrightarrow> length r < length cs)"
proof (induction "length cs" arbitrary: cs v ps vs r rule: less_induct)
  case less
  note IH = less.hyps
  have scanned: "length r < length cs" if s: "scan_once cs = Some (v, r)" for v r
  proof -
    from s obtain c cs' where cs: "cs = c # cs'"
      by (cases cs) (simp_all add: scan_once.simps)
    have shorter: "length rest < length cs" if "skip_ws cs' = d # rest" for d rest
      using skip_ws_Cons_length [OF that] cs by simp
    have sub_members: "length r < length cs"
      if "skip_ws cs' = d # rest" "parse_members rest = Some (ps, r)" for d rest ps
      using IH [OF shorter [OF that(1)]] that(2) shorter [OF that(1)] by (meson less_trans)
    have sub_elements: "length r < length cs"
      if "skip_ws cs' = d # rest" "parse_elements (d # rest) = Some (vs, r)" for d rest vs
    proof -
      from that(1) skip_ws_length [of cs'] cs have "length (d # rest) < length cs" by simp
      from IH [OF this] that(2) this show ?thesis by (meson less_trans)
    qed
    consider (str) "c = CHR 0x22" | (obj) "c = CHR ''{''" | (arr) "c = CHR ''[''"
      | (other) "c \<noteq> CHR 0x22" "c \<noteq> CHR ''{''" "c \<noteq> CHR ''[''"
      by blast
    then show ?thesis
    proof cases
      case str
      with s cs obtain body where "scanstring cs' = Some (body, r)"
        by (auto simp add: scan_once.simps split: option.splits)
      from scanstring_consumes [OF this] cs show ?thesis by simp
    next
      case obj
      with s cs obtain d rest where sk: "skip_ws cs' = d # rest"
        by (auto simp add: scan_once.simps split: list.splits)
      show ?thesis
      proof (cases "d = CHR ''}''")
        case True
        with s cs obj sk have "r = rest" by (simp add: scan_once.simps)
        with shorter [OF sk] show ?thesis by simp
      next
        case False
        with s cs obj sk obtain ps where "parse_members rest = Some (ps, r)"
          by (auto simp add: scan_once.simps split: if_splits option.splits)
        with sk show ?thesis by (rule sub_members)
      qed
    next
      case arr
      with s cs obtain d rest where sk: "skip_ws cs' = d # rest"
        by (auto simp add: scan_once.simps split: list.splits)
      show ?thesis
      proof (cases "d = CHR '']''")
        case True
        with s cs arr sk have "r = rest" by (simp add: scan_once.simps)
        with shorter [OF sk] show ?thesis by simp
      next
        case False
        with s cs arr sk obtain vs where "parse_elements (d # rest) = Some (vs, r)"
          by (auto simp add: scan_once.simps split: option.splits)
        with sk show ?thesis by (rule sub_elements)
      qed
    next
      case other
      define is_null where "is_null = prefix ''null'' (c # cs')"
      define is_true where "is_true = prefix ''true'' (c # cs')"
      define is_false where "is_false = prefix ''false'' (c # cs')"
      define is_nan where "is_nan = prefix ''NaN'' (c # cs')"
      define is_inf where "is_inf = prefix ''Infinity'' (c # cs')"
      define is_neg_inf where "is_neg_inf = prefix ''-Infinity'' (c # cs')"
      have unfolded: "scan_once (c # cs') =
          (if is_null then Some (JNull, drop 4 (c # cs'))
           else if is_true then Some (JBool True, drop 4 (c # cs'))
           else if is_false then Some (JBool False, drop 5 (c # cs'))
           else (case match_number (c # cs') of
                   Some (lexeme, r) \<Rightarrow> Some (JNumber lexeme, r)
                 | None \<Rightarrow>
                     if is_nan then Some (JConstant ''NaN'', drop 3 (c # cs'))
                     else if is_inf then Some (JConstant ''Infinity'', drop 8 (c # cs'))
                     else if is_neg_inf then Some (JConstant ''-Infinity'', drop 9 (c # cs'))
                     else None))"
        unfolding is_null_def is_true_def is_false_def is_nan_def is_inf_def is_neg_inf_def
        by (subst scan_once.simps) (simp only: other if_False)
      from s have "(\<exists>n. 0 < n \<and> r = drop n (c # cs')) \<or>
          (\<exists>lexeme. match_number (c # cs') = Some (lexeme, r))"
        unfolding cs unfolded
        by (cases is_null; cases is_true; cases is_false; cases "match_number (c # cs')";
            cases is_nan; cases is_inf; cases is_neg_inf) auto
      then show ?thesis
      proof
        assume "\<exists>n. 0 < n \<and> r = drop n (c # cs')"
        with cs show ?thesis by auto
      next
        assume "\<exists>lexeme. match_number (c # cs') = Some (lexeme, r)"
        with cs show ?thesis by (auto dest: match_number_consumes)
      qed
    qed
  qed
  have members: "length r < length cs" if m: "parse_members cs = Some (ps, r)" for ps r
  proof -
    from m obtain key r0 where key: "scanstring cs = Some (key, r0)"
      by (subst (asm) parse_members.simps) (auto split: option.splits)
    from m key obtain r1 where colon: "skip_ws r0 = CHR '':'' # r1" and g1: "length r1 < length cs"
      by (subst (asm) parse_members.simps) (auto split: list.splits if_splits)
    from m key colon g1 obtain v r2 where val: "scan_once (skip_ws r1) = Some (v, r2)"
      by (subst (asm) parse_members.simps) (auto split: option.splits)
    from skip_ws_length [of r1] g1 have "length (skip_ws r1) < length cs" by simp
    with IH val have r2: "length r2 < length cs" by (meson less_trans)
    from m key colon g1 val obtain d r3 where sep: "skip_ws r2 = d # r3"
      by (subst (asm) parse_members.simps) (auto split: list.splits)
    from skip_ws_Cons_length [OF sep] r2 have r3: "length r3 < length cs" by simp
    from m key colon g1 val sep have "r = r3 \<or>
        (\<exists>rest ps'. parse_members rest = Some (ps', r) \<and> length rest < length cs)"
      by (subst (asm) parse_members.simps)
         (auto split: list.splits if_splits option.splits)
    with r3 IH show ?thesis by (meson less_trans)
  qed
  have elements: "length r < length cs" if e: "parse_elements cs = Some (vs, r)" for vs r
  proof -
    from e obtain v r0 where val: "scan_once cs = Some (v, r0)"
      by (subst (asm) parse_elements.simps) (auto split: option.splits)
    from e val obtain d r1 where sep: "skip_ws r0 = d # r1"
      by (subst (asm) parse_elements.simps) (auto split: list.splits)
    from skip_ws_Cons_length [OF sep] scanned [OF val] have r1: "length r1 < length cs" by simp
    from e val sep have "r = r1 \<or>
        (\<exists>rest vs'. parse_elements rest = Some (vs', r) \<and> length rest < length cs)"
      by (subst (asm) parse_elements.simps)
         (use skip_ws_length [of r1] in \<open>auto split: list.splits if_splits option.splits\<close>)
    with r1 IH show ?thesis by (meson less_trans)
  qed
  from scanned members elements show ?case by blast
qed

lemma scan_once_consumes: "scan_once cs = Some (v, r) \<Longrightarrow> length r < length cs"
  using decoder_consumes [of cs v r] by simp

text \<open>The two loops of the decoder satisfy their equations without the tests on lengths.\<close>

lemma parse_elements_unguarded:
  "parse_elements cs =
     (case scan_once cs of
        None \<Rightarrow> None
      | Some (v, r) \<Rightarrow>
          (case skip_ws r of
             [] \<Rightarrow> None
           | d # r1 \<Rightarrow>
               if d = CHR '']'' then Some ([v], r1)
               else if d = CHR '','' then
                 (case parse_elements (skip_ws r1) of
                    None \<Rightarrow> None
                  | Some (values, r2) \<Rightarrow> Some (v # values, r2))
               else None))"
proof (cases "scan_once cs")
  case None
  then show ?thesis by (subst parse_elements.simps) simp
next
  case (Some a)
  then obtain v r where val: "scan_once cs = Some (v, r)" by (cases a) simp
  show ?thesis
  proof (cases "skip_ws r")
    case Nil
    with val show ?thesis by (subst parse_elements.simps) simp
  next
    case (Cons d r1)
    from skip_ws_Cons_length [OF Cons] scan_once_consumes [OF val]
    have "length r1 < length cs" by simp
    with val Cons show ?thesis by (subst parse_elements.simps) simp
  qed
qed

lemma parse_members_unguarded:
  "parse_members cs =
     (case scanstring cs of
        None \<Rightarrow> None
      | Some (key, r) \<Rightarrow>
          (case skip_ws r of
             [] \<Rightarrow> None
           | c # r1 \<Rightarrow>
               if c = CHR '':'' then
                 (case scan_once (skip_ws r1) of
                    None \<Rightarrow> None
                  | Some (v, r2) \<Rightarrow>
                      (case skip_ws r2 of
                         [] \<Rightarrow> None
                       | d # r3 \<Rightarrow>
                           if d = CHR ''}'' then Some ([(key, v)], r3)
                           else if d = CHR '','' then
                             (case skip_ws r3 of
                                [] \<Rightarrow> None
                              | q # r4 \<Rightarrow>
                                  if q = CHR 0x22 then
                                    (case parse_members r4 of
                                       None \<Rightarrow> None
                                     | Some (pairs, r5) \<Rightarrow> Some ((key, v) # pairs, r5))
                                  else None)
                           else None))
               else None))"
proof (cases "scanstring cs")
  case None
  then show ?thesis by (subst parse_members.simps) simp
next
  case (Some a)
  then obtain key r where key: "scanstring cs = Some (key, r)" by (cases a) simp
  show ?thesis
  proof (cases "skip_ws r")
    case Nil
    with key show ?thesis by (subst parse_members.simps) simp
  next
    case (Cons c r1)
    from skip_ws_Cons_length [OF Cons] scanstring_consumes [OF key]
    have g1: "length r1 < length cs" by simp
    show ?thesis
    proof (cases "scan_once (skip_ws r1)")
      case None
      with key Cons show ?thesis by (subst parse_members.simps) simp
    next
      case (Some b)
      then obtain v r2 where val: "scan_once (skip_ws r1) = Some (v, r2)" by (cases b) simp
      from scan_once_consumes [OF val] skip_ws_length [of r1] g1
      have r2: "length r2 < length cs" by simp
      show ?thesis
      proof (cases "skip_ws r2")
        case Nil
        with key Cons val show ?thesis by (subst parse_members.simps) simp
      next
        case sep: (Cons d r3)
        from skip_ws_Cons_length [OF sep] r2 have r3: "length r3 < length cs" by simp
        show ?thesis
        proof (cases "skip_ws r3")
          case Nil
          with key Cons val sep g1 show ?thesis by (subst parse_members.simps) simp
        next
          case next_key: (Cons q r4)
          from skip_ws_Cons_length [OF next_key] r3 have "length r4 < length cs" by simp
          with key Cons val sep next_key g1 show ?thesis
            by (subst parse_members.simps) simp
        qed
      qed
    qed
  qed
qed

section \<open>Properties of the two scans\<close>

text \<open>
  The forward scan started at offset \<open>k\<close> with the counter \<open>c\<close> stops at the first
  offset at which the counter reaches \<open>0\<close>, and raises \<^verbatim>\<open>IndexError\<close> when there is none.
  The backward scan started inside the document never raises. When the extraction
  returns, it returns a text: \<^verbatim>\<open>return None, -1, -1\<close> is never reached.
\<close>

lemma brace_depth_Cons: "brace_depth (c # cs) = brace_delta c + brace_depth cs"
  by (simp add: brace_delta_def)

lemma str_index_in_range:
  "i < length content \<Longrightarrow> str_index content (int i) = Inr (content ! i)"
  by (simp add: str_index_def)

lemma str_index_at_length:
  "str_index content (int (length content)) = Inl IndexError"
  by (simp add: str_index_def)

lemma str_index_beyond:
  "int (length content) \<le> i \<Longrightarrow> str_index content i = Inl IndexError"
  by (simp add: str_index_def)

lemma str_index_Inr_less:
  "str_index content i = Inr c \<Longrightarrow> i < int (length content)"
  by (auto simp add: str_index_def split: if_splits)

lemma forward_scan_stop:
  "c \<le> 0 \<Longrightarrow> forward_scan content e c = Inr (e, c)"
  by (subst forward_scan.simps) simp

lemma forward_scan_step:
  assumes "Suc k < length content" and "0 < c"
  shows "forward_scan content (int k) c =
         forward_scan content (int (Suc k)) (c + brace_delta (content ! Suc k))"
proof -
  have eq: "int (Suc k) = int k + 1" by simp
  from assms(1) have idx: "str_index content (int k + 1) = Inr (content ! Suc k)"
    by (simp add: str_index_def nat_add_distrib)
  from assms show ?thesis
    unfolding eq by (subst forward_scan.simps) (simp add: idx brace_delta_def)
qed

lemma forward_scan_raise:
  assumes "Suc k = length content" and "0 < c"
  shows "forward_scan content (int k) c = Inl IndexError"
proof -
  from assms(1) have "int k + 1 = int (length content)" by simp
  then have idx: "str_index content (int k + 1) = Inl IndexError"
    by (simp add: str_index_at_length)
  from assms show ?thesis
    by (subst forward_scan.simps) (simp add: idx)
qed

lemma depth_unfold:
  assumes "Suc k < length content" and "k < j"
  shows "brace_depth (take (j - k) (drop (Suc k) content)) =
         brace_delta (content ! Suc k) + brace_depth (take (j - Suc k) (drop (Suc (Suc k)) content))"
proof -
  from assms(1) have "drop (Suc k) content = content ! Suc k # drop (Suc (Suc k)) content"
    by (simp add: Cons_nth_drop_Suc)
  moreover from assms(2) have "j - k = Suc (j - Suc k)" by simp
  ultimately show ?thesis by (simp add: brace_delta_def)
qed

lemma forward_scan_closes:
  assumes "k < e" and "e < length content" and "0 < c"
    and "c + brace_depth (take (e - k) (drop (Suc k) content)) = 0"
    and "\<forall>j. k < j \<and> j < e \<longrightarrow> 0 < c + brace_depth (take (j - k) (drop (Suc k) content))"
  shows "forward_scan content (int k) c = Inr (int e, 0)"
  using assms
proof (induction "e - k" arbitrary: k c)
  case 0
  then show ?case by simp
next
  case (Suc d)
  from Suc.prems have in_range: "Suc k < length content" by simp
  let ?c = "c + brace_delta (content ! Suc k)"
  have step: "forward_scan content (int k) c = forward_scan content (int (Suc k)) ?c"
    using in_range Suc.prems(3) by (rule forward_scan_step)
  show ?case
  proof (cases "Suc k = e")
    case True
    then have e: "e = Suc k" by simp
    from Suc.prems(4) have "c + brace_depth (take (Suc k - k) (drop (Suc k) content)) = 0"
      unfolding e .
    with depth_unfold [OF in_range, of "Suc k"] have "?c = 0" by simp
    with step e show ?thesis by (simp add: forward_scan_stop)
  next
    case False
    with Suc.prems(1) have lt: "Suc k < e" by simp
    from Suc.prems(5) lt in_range have pos: "0 < ?c"
      using depth_unfold [of k content "Suc k"] by force
    have closes: "?c + brace_depth (take (e - Suc k) (drop (Suc (Suc k)) content)) = 0"
      using Suc.prems(4) in_range Suc.prems(1) by (simp add: depth_unfold [of k content e])
    have above: "\<forall>j. Suc k < j \<and> j < e \<longrightarrow>
        0 < ?c + brace_depth (take (j - Suc k) (drop (Suc (Suc k)) content))"
    proof (intro allI impI)
      fix j assume j: "Suc k < j \<and> j < e"
      then have "0 < c + brace_depth (take (j - k) (drop (Suc k) content))"
        using Suc.prems(5) by simp
      with in_range j show "0 < ?c + brace_depth (take (j - Suc k) (drop (Suc (Suc k)) content))"
        by (simp add: depth_unfold [of k content j])
    qed
    from Suc.hyps(2) have "d = e - Suc k" by simp
    from Suc.hyps(1) [OF this lt Suc.prems(2) pos closes above] step
    show ?thesis by simp
  qed
qed

lemma forward_scan_never_closes:
  assumes "k < length content" and "0 < c"
    and "\<forall>j. k < j \<and> j < length content \<longrightarrow>
           0 < c + brace_depth (take (j - k) (drop (Suc k) content))"
  shows "forward_scan content (int k) c = Inl IndexError"
  using assms
proof (induction "length content - k" arbitrary: k c)
  case 0
  then show ?case by simp
next
  case (Suc d)
  show ?case
  proof (cases "Suc k = length content")
    case True
    then show ?thesis using Suc.prems(2) by (rule forward_scan_raise)
  next
    case False
    with Suc.prems(1) have in_range: "Suc k < length content" by simp
    let ?c = "c + brace_delta (content ! Suc k)"
    have step: "forward_scan content (int k) c = forward_scan content (int (Suc k)) ?c"
      using in_range Suc.prems(2) by (rule forward_scan_step)
    from Suc.prems(3) in_range have pos: "0 < ?c"
      using depth_unfold [of k content "Suc k"] by force
    have above: "\<forall>j. Suc k < j \<and> j < length content \<longrightarrow>
        0 < ?c + brace_depth (take (j - Suc k) (drop (Suc (Suc k)) content))"
    proof (intro allI impI)
      fix j assume j: "Suc k < j \<and> j < length content"
      then have "0 < c + brace_depth (take (j - k) (drop (Suc k) content))"
        using Suc.prems(3) by simp
      with in_range j show "0 < ?c + brace_depth (take (j - Suc k) (drop (Suc (Suc k)) content))"
        by (simp add: depth_unfold [of k content j])
    qed
    from Suc.hyps(2) have "d = length content - Suc k" by simp
    from Suc.hyps(1) [OF this in_range pos above] step
    show ?thesis by simp
  qed
qed

lemma forward_scan_count:
  "forward_scan content e c = Inr (e', c') \<Longrightarrow> 0 < c \<Longrightarrow> e < int (length content) \<Longrightarrow> c' = 0"
proof (induction content e c rule: forward_scan.induct)
  case (1 content e c)
  from "1.prems"(2,3) have enter: "e < int (length content) \<and> 0 < c" by simp
  from "1.prems"(1) enter obtain ch where ch: "str_index content (e + 1) = Inr ch"
    by (subst (asm) forward_scan.simps) (auto split: sum.splits)
  then have less: "e + 1 < int (length content)" by (rule str_index_Inr_less)
  show ?case
  proof (cases "ch = CHR ''{''")
    case True
    with "1.prems"(1) enter ch
    have "forward_scan content (e + 1) (c + 1) = Inr (e', c')"
      by (subst (asm) forward_scan.simps) simp
    with "1.IH"(1) [OF enter ch True] less enter show ?thesis by simp
  next
    case no_open: False
    show ?thesis
    proof (cases "ch = CHR ''}''")
      case True
      with "1.prems"(1) enter ch no_open
      have result: "forward_scan content (e + 1) (c - 1) = Inr (e', c')"
        by (subst (asm) forward_scan.simps) simp
      show ?thesis
      proof (cases "c = 1")
        case True
        with result show ?thesis by (simp add: forward_scan_stop)
      next
        case False
        with enter have "0 < c - 1" by simp
        with "1.IH"(2) [OF enter ch no_open True result] less show ?thesis by simp
      qed
    next
      case False
      with "1.prems"(1) enter ch no_open
      have "forward_scan content (e + 1) c = Inr (e', c')"
        by (subst (asm) forward_scan.simps) simp
      with "1.IH"(3) [OF enter ch no_open False] less enter show ?thesis by simp
    qed
  qed
qed

lemma backward_scan_beyond:
  "int (length content) \<le> p \<Longrightarrow> backward_scan content p = Inl IndexError"
  by (subst backward_scan.simps) (simp add: str_index_beyond)

lemma never_not_found: "extract_json_object content p \<noteq> Inr (None, s, e)"
proof (cases "p < int (length content)")
  case True
  show ?thesis
  proof
    assume "extract_json_object content p = Inr (None, s, e)"
    then obtain e' c' where "forward_scan content p 1 = Inr (e', c')" and "c' \<noteq> 0"
      by (auto simp add: extract_json_object_def split: sum.splits prod.splits if_splits)
    with forward_scan_count [of content p 1 e' c'] True show False by simp
  qed
next
  case False
  then have "backward_scan content p = Inl IndexError"
    by (simp add: backward_scan_beyond)
  then show ?thesis by (simp add: extract_json_object_def)
qed

lemma brace_depth_append: "brace_depth (xs @ ys) = brace_depth xs + brace_depth ys"
  by (induction xs) simp_all

lemma backward_scan_at_brace:
  "p < length content \<Longrightarrow> content ! p = CHR ''{'' \<Longrightarrow> backward_scan content (int p) = Inr (int p)"
  by (subst backward_scan.simps) (simp add: str_index_in_range)

lemma backward_scan_step:
  "Suc p < length content \<Longrightarrow> content ! Suc p \<noteq> CHR ''{'' \<Longrightarrow>
   backward_scan content (int (Suc p)) = backward_scan content (int p)"
  by (subst backward_scan.simps) (simp add: str_index_in_range [of "Suc p" content, simplified])

lemma backward_scan_first:
  "0 < length content \<Longrightarrow> content ! 0 \<noteq> CHR ''{'' \<Longrightarrow> backward_scan content 0 = Inr (- 1)"
  by (subst backward_scan.simps, simp add: str_index_in_range [of 0 content, simplified])
     (subst backward_scan.simps, simp)

lemma backward_scan_found:
  assumes "s \<le> p" and "p < length content" and "content ! s = CHR ''{''"
    and "\<forall>j. s < j \<and> j \<le> p \<longrightarrow> content ! j \<noteq> CHR ''{''"
  shows "backward_scan content (int p) = Inr (int s)"
  using assms
proof (induction p)
  case 0
  then show ?case by (simp add: backward_scan_at_brace [of 0 content, simplified])
next
  case (Suc p)
  show ?case
  proof (cases "s = Suc p")
    case True
    with Suc.prems show ?thesis by (simp only: backward_scan_at_brace)
  next
    case False
    with Suc.prems have "s \<le> p" "p < length content"
      "\<forall>j. s < j \<and> j \<le> p \<longrightarrow> content ! j \<noteq> CHR ''{''"
      by auto
    with Suc.IH Suc.prems(3) have "backward_scan content (int p) = Inr (int s)" by blast
    moreover from False Suc.prems have "content ! Suc p \<noteq> CHR ''{''" by simp
    note backward_scan_step [OF Suc.prems(2) this]
    ultimately show ?thesis by (simp only:)
  qed
qed

lemma backward_scan_none:
  assumes "p < length content" and "\<forall>j. j \<le> p \<longrightarrow> content ! j \<noteq> CHR ''{''"
  shows "backward_scan content (int p) = Inr (- 1)"
  using assms
proof (induction p)
  case 0
  then show ?case by (simp add: backward_scan_first)
next
  case (Suc p)
  then have "backward_scan content (int p) = Inr (- 1)" by simp
  moreover from Suc.prems have "content ! Suc p \<noteq> CHR ''{''" by simp
  note backward_scan_step [OF Suc.prems(1) this]
  ultimately show ?case by (simp only:)
qed

lemma backward_scan_safe:
  "p < length content \<Longrightarrow>
   \<exists>s. backward_scan content (int p) = Inr s \<and> - 1 \<le> s \<and> s \<le> int p"
proof (induction p)
  case 0
  then show ?case
    using backward_scan_first [of content] backward_scan_at_brace [of 0 content]
    by (cases "content ! 0 = CHR ''{''") auto
next
  case (Suc p)
  show ?case
  proof (cases "content ! Suc p = CHR ''{''")
    case True
    with Suc.prems backward_scan_at_brace [of "Suc p" content] show ?thesis by auto
  next
    case False
    from backward_scan_step [OF Suc.prems this]
    have "backward_scan content (int (Suc p)) = backward_scan content (int p)" .
    moreover from Suc obtain s where "backward_scan content (int p) = Inr s"
      and "- 1 \<le> s" and "s \<le> int p" by auto
    ultimately show ?thesis by auto
  qed
qed

lemma str_slice_block:
  "s \<le> e \<Longrightarrow> e < length content \<Longrightarrow>
   str_slice content (int s) (int e + 1) = take (Suc e - s) (drop s content)"
proof -
  assume le: "s \<le> e" and less: "e < length content"
  have "nat (int e + 1 - int s) = Suc e - s"
    using le by simp
  with le less show ?thesis
    by (simp add: str_slice_def Let_def min_def)
qed

lemma balanced_blockD:
  assumes "balanced_block content s e"
  shows "s < e" and "e < length content" and "content ! s = CHR ''{''"
    and "brace_depth (take (Suc e - s) (drop s content)) = 0"
    and "s \<le> k \<Longrightarrow> k < e \<Longrightarrow> 0 < brace_depth (take (Suc k - s) (drop s content))"
  using assms by (simp_all add: balanced_block_def list_all_iff)

lemma prefix_depth_split:
  assumes "s \<le> p" and "p \<le> k"
  shows "brace_depth (take (Suc k - s) (drop s content)) =
         brace_depth (take (Suc p - s) (drop s content)) +
         brace_depth (take (k - p) (drop (Suc p) content))"
proof -
  from assms have "Suc k - s = (Suc p - s) + (k - p)" by simp
  then have "take (Suc k - s) (drop s content) =
      take (Suc p - s) (drop s content) @ take (k - p) (drop (Suc p - s) (drop s content))"
    by (simp only: take_add)
  moreover from assms have "drop (Suc p - s) (drop s content) = drop (Suc p) content"
    by simp
  ultimately show ?thesis by (simp add: brace_depth_append)
qed

lemma prefix_depth_Suc:
  assumes "s \<le> k" and "Suc k < length content"
  shows "brace_depth (take (Suc (Suc k) - s) (drop s content)) =
         brace_depth (take (Suc k - s) (drop s content)) + brace_delta (content ! Suc k)"
proof -
  from assms have "take 1 (drop (Suc k) content) = [content ! Suc k]"
    by (simp add: take_Suc_conv_app_nth)
  with prefix_depth_split [of s k "Suc k" content] assms show ?thesis
    by (simp add: brace_delta_def)
qed

lemma depth_before_offset:
  assumes block: "balanced_block content s e"
    and "k \<le> p" and "p < e" and "s \<le> k"
    and no_open: "\<forall>j. s < j \<and> j \<le> p \<longrightarrow> content ! j \<noteq> CHR ''{''"
  shows "brace_depth (take (Suc k - s) (drop s content)) = 1"
  using assms(2,4)
proof (induction k)
  case 0
  with balanced_blockD(2,3) [OF block] balanced_blockD(1) [OF block]
  have "take 1 content = [CHR ''{'']"
    by (cases content) auto
  with 0 show ?case by (simp add: brace_delta_def)
next
  case (Suc k)
  show ?case
  proof (cases "s = Suc k")
    case True
    from balanced_blockD [OF block] have "Suc k < length content" "content ! Suc k = CHR ''{''"
      using True by auto
    then have "take 1 (drop (Suc k) content) = [CHR ''{'']"
      by (simp add: take_Suc_conv_app_nth)
    with True show ?thesis by (simp add: brace_delta_def)
  next
    case False
    with Suc.prems have le: "s \<le> k" "k \<le> p" by simp_all
    with Suc.IH have before: "brace_depth (take (Suc k - s) (drop s content)) = 1" by simp
    from Suc.prems \<open>p < e\<close> balanced_blockD(2) [OF block]
    have in_range: "Suc k < length content" by simp
    from Suc.prems \<open>p < e\<close> le
    have "0 < brace_depth (take (Suc (Suc k) - s) (drop s content))"
      by (intro balanced_blockD(5) [OF block]) simp_all
    moreover from no_open le Suc.prems have "content ! Suc k \<noteq> CHR ''{''" by simp
    ultimately show ?thesis
      using prefix_depth_Suc [OF le(1) in_range] before
      by (simp add: brace_delta_def split: if_splits)
  qed
qed

lemma extract_json_object_block:
  assumes block: "balanced_block content s e"
    and inside: "s < p" "p < e"
    and no_open: "\<forall>j. s < j \<and> j \<le> p \<longrightarrow> content ! j \<noteq> CHR ''{''"
  shows "extract_json_object content (int p) =
         Inr (Some (take (Suc e - s) (drop s content)), int s, int e)"
proof -
  note b = balanced_blockD [OF block]
  have start: "backward_scan content (int p) = Inr (int s)"
    using inside b(2,3) no_open by (intro backward_scan_found) simp_all
  have at_p: "brace_depth (take (Suc p - s) (drop s content)) = 1"
    using block _ inside(2) _ no_open by (rule depth_before_offset) (use inside in simp_all)
  have rel: "brace_depth (take (Suc k - s) (drop s content)) =
             1 + brace_depth (take (k - p) (drop (Suc p) content))" if "p \<le> k" for k
    using prefix_depth_split [of s p k content] inside that at_p by simp
  have "forward_scan content (int p) 1 = Inr (int e, 0)"
  proof (rule forward_scan_closes)
    show "p < e" by fact
    show "e < length content" by fact
    show "(0::int) < 1" by simp
    from b(4) rel [of e] inside
    show "1 + brace_depth (take (e - p) (drop (Suc p) content)) = 0" by simp
    show "\<forall>j. p < j \<and> j < e \<longrightarrow> 0 < 1 + brace_depth (take (j - p) (drop (Suc p) content))"
    proof (intro allI impI)
      fix j assume j: "p < j \<and> j < e"
      with inside have "0 < brace_depth (take (Suc j - s) (drop s content))"
        by (intro b(5)) simp_all
      with rel [of j] j show "0 < 1 + brace_depth (take (j - p) (drop (Suc p) content))"
        by simp
    qed
  qed
  with start b(1,2) show ?thesis
    by (simp add: extract_json_object_def str_slice_block)
qed

lemma extract_json_object_unclosed:
  assumes "p < length content"
    and "\<forall>j. p < j \<and> j < length content \<longrightarrow>
           0 < 1 + brace_depth (take (j - p) (drop (Suc p) content))"
  shows "extract_json_object content (int p) = Inl IndexError"
proof -
  from backward_scan_safe [OF assms(1)] obtain s where "backward_scan content (int p) = Inr s"
    by blast
  moreover from assms have "forward_scan content (int p) 1 = Inl IndexError"
    by (intro forward_scan_never_closes) simp_all
  ultimately show ?thesis by (simp add: extract_json_object_def)
qed

section \<open>Properties of the loop of \<open>main\<close>\<close>

lemma digit_char_code: "d < 10 \<Longrightarrow> of_char (digit_char d) = (48 + d :: nat)"
proof -
  assume "d < 10"
  then have "d \<in> set [0..<10]" by simp
  then have "d \<in> {0, 1, 2, 3, 4, 5, 6, 7, 8, 9}"
    by (simp add: upt_rec numeral_eq_Suc)
  then show ?thesis
    by (auto simp add: digit_char_def)
qed

lemma digit_char_inj: "a < 10 \<Longrightarrow> b < 10 \<Longrightarrow> digit_char a = digit_char b \<Longrightarrow> a = b"
proof -
  assume a: "a < 10" and b: "b < 10" and eq: "digit_char a = digit_char b"
  from eq have "(of_char (digit_char a) :: nat) = of_char (digit_char b)" by simp
  with a b show ?thesis by (simp add: digit_char_code)
qed

lemma digit_char_not_minus: "d < 10 \<Longrightarrow> digit_char d \<noteq> CHR ''-''"
proof
  assume "d < 10" and "digit_char d = CHR ''-''"
  then have "(48 + d :: nat) = of_char (CHR ''-'')" by (simp add: digit_char_code [symmetric])
  then show False by simp
qed

lemma str_nat_nonempty: "str_nat n \<noteq> []"
  by (subst str_nat.simps) simp

lemma str_nat_no_minus: "CHR ''-'' \<notin> set (str_nat n)"
proof (induction n rule: str_nat.induct)
  case (1 n)
  show ?case
  proof (cases "n < 10")
    case True
    then show ?thesis
      using digit_char_not_minus [of n] by (subst str_nat.simps) auto
  next
    case False
    have "n mod 10 < 10" by simp
    with False "1.IH" digit_char_not_minus [of "n mod 10"] show ?thesis
      by (subst str_nat.simps) auto
  qed
qed

lemma str_nat_inj: "str_nat n = str_nat m \<Longrightarrow> n = m"
proof (induction n arbitrary: m rule: str_nat.induct)
  case (1 n)
  show ?case
  proof (cases "n < 10")
    case small_n: True
    show ?thesis
    proof (cases "m < 10")
      case True
      with small_n "1.prems" show ?thesis
        by (simp add: str_nat.simps [of n] str_nat.simps [of m] digit_char_inj)
    next
      case False
      with small_n "1.prems" str_nat_nonempty [of "m div 10"] show ?thesis
        by (simp add: str_nat.simps [of n] str_nat.simps [of m])
    qed
  next
    case big_n: False
    show ?thesis
    proof (cases "m < 10")
      case True
      with big_n "1.prems" str_nat_nonempty [of "n div 10"] show ?thesis
        by (simp add: str_nat.simps [of n] str_nat.simps [of m])
    next
      case False
      with big_n "1.prems"
      have "str_nat (n div 10) = str_nat (m div 10)"
        and "digit_char (n mod 10) = digit_char (m mod 10)"
        by (simp_all add: str_nat.simps [of n] str_nat.simps [of m])
      with big_n "1.IH" have "n div 10 = m div 10" and "n mod 10 = m mod 10"
        by (auto intro: digit_char_inj)
      then show ?thesis by (metis div_mult_mod_eq)
    qed
  qed
qed

lemma str_int_inj: "str_int i = str_int j \<Longrightarrow> i = j"
proof -
  assume eq: "str_int i = str_int j"
  have no_minus: "str_nat n \<noteq> CHR ''-'' # cs" "CHR ''-'' # cs \<noteq> str_nat n" for n cs
    using str_nat_no_minus [of n] by (metis list.set_intros(1))+
  show ?thesis
  proof (cases "i < 0"; cases "j < 0")
    assume "i < 0" "j < 0"
    with eq have "nat (- i) = nat (- j)" by (auto simp add: str_int_def dest: str_nat_inj)
    with \<open>i < 0\<close> \<open>j < 0\<close> show ?thesis by simp
  next
    assume "i < 0" "\<not> j < 0"
    with eq no_minus show ?thesis by (auto simp add: str_int_def)
  next
    assume "\<not> i < 0" "j < 0"
    with eq no_minus show ?thesis by (auto simp add: str_int_def)
  next
    assume "\<not> i < 0" "\<not> j < 0"
    with eq have "nat i = nat j" by (auto simp add: str_int_def dest: str_nat_inj)
    with \<open>\<not> i < 0\<close> \<open>\<not> j < 0\<close> show ?thesis by simp
  qed
qed

lemma key_text_inj: "key_text k = key_text k' \<Longrightarrow> k = k'"
  by (auto simp add: key_text_def prod_eq_iff dest: str_int_inj)

lemma extract_json_object_text:
  "extract_json_object content pos = Inr (Some text, s, e) \<Longrightarrow>
   text = str_slice content s (e + 1)"
  by (auto simp add: extract_json_object_def split: sum.splits prod.splits if_splits)

lemma loop_inv_initial: "loop_inv loads content ([], {})"
  by (simp add: loop_inv_def)

lemma loop_inv_skip:
  "loop_inv loads content (results, found) \<Longrightarrow>
   loads (str_slice content s (e + 1)) = None \<Longrightarrow>
   loop_inv loads content (results, insert (s, e) found)"
  by (auto simp add: loop_inv_def)

lemma loop_inv_append:
  assumes inv: "loop_inv loads content (results, found)"
    and new: "(s, e) \<notin> found"
    and parsed: "loads (str_slice content s (e + 1)) = Some v"
  shows "loop_inv loads content
           (results @ [\<lparr>first_line = str_int s, last_line = str_int e, data = v\<rparr>],
            insert (s, e) found)"
proof -
  let ?r = "\<lparr>first_line = str_int s, last_line = str_int e, data = v\<rparr>"
  have key: "result_key ?r = key_text (s, e)"
    by (simp add: result_key_def key_text_def)
  have fresh: "result_key ?r \<notin> set (map result_key results)"
  proof
    assume "result_key ?r \<in> set (map result_key results)"
    then obtain r where r: "r \<in> set results" and eq: "result_key r = key_text (s, e)"
      unfolding key by auto
    from inv r obtain k where k: "k \<in> found"
      and form: "r = \<lparr>first_line = str_int (fst k), last_line = str_int (snd k), data = data r\<rparr>"
      unfolding loop_inv_def by fastforce
    from form have "result_key r = key_text k"
      by (metis key_text_def result.select_convs(1) result.select_convs(2) result_key_def)
    with eq have "k = (s, e)" by (simp add: key_text_inj)
    with k new show False by simp
  qed
  from inv have d: "distinct (map result_key results)"
    by (simp add: loop_inv_def)
  from inv have form: "\<forall>r \<in> set results. \<exists>k \<in> found.
         loads (str_slice content (fst k) (snd k + 1)) = Some (data r) \<and>
         r = \<lparr>first_line = str_int (fst k), last_line = str_int (snd k), data = data r\<rparr>"
    by (simp add: loop_inv_def)
  from inv have present: "\<forall>k \<in> found. loads (str_slice content (fst k) (snd k + 1)) \<noteq> None \<longrightarrow>
         key_text k \<in> result_key ` set results"
    by (simp add: loop_inv_def)
  have 1: "distinct (map result_key (results @ [?r]))"
    using d fresh by simp
  have 2: "\<forall>r \<in> set (results @ [?r]). \<exists>k \<in> insert (s, e) found.
         loads (str_slice content (fst k) (snd k + 1)) = Some (data r) \<and>
         r = \<lparr>first_line = str_int (fst k), last_line = str_int (snd k), data = data r\<rparr>"
  proof
    fix r assume "r \<in> set (results @ [?r])"
    then consider "r \<in> set results" | "r = ?r" by auto
    then show "\<exists>k \<in> insert (s, e) found.
         loads (str_slice content (fst k) (snd k + 1)) = Some (data r) \<and>
         r = \<lparr>first_line = str_int (fst k), last_line = str_int (snd k), data = data r\<rparr>"
    proof cases
      case 1
      with form show ?thesis by blast
    next
      case 2
      with parsed show ?thesis by simp
    qed
  qed
  have 3: "\<forall>k \<in> insert (s, e) found. loads (str_slice content (fst k) (snd k + 1)) \<noteq> None \<longrightarrow>
         key_text k \<in> result_key ` set (results @ [?r])"
    using present key by auto
  from 1 2 3 show ?thesis
    unfolding loop_inv_def fst_conv snd_conv by blast
qed

lemma loop_body_cases:
  assumes "loop_body loads content pos (results, found) = Inr st'"
  obtains (skip) "st' = (results, found)"
      "\<And>text s e. extract_json_object content pos = Inr (Some text, s, e) \<Longrightarrow> text \<noteq> [] \<Longrightarrow>
         (s, e) \<in> found"
    | (invalid) body s e where "extract_json_object content pos = Inr (Some body, s, e)"
      "body \<noteq> []" "(s, e) \<notin> found" "loads body = None"
      "st' = (results, insert (s, e) found)"
    | (append) body s e v where "extract_json_object content pos = Inr (Some body, s, e)"
      "body \<noteq> []" "(s, e) \<notin> found" "loads body = Some v"
      "st' = (results @ [\<lparr>first_line = str_int s, last_line = str_int e, data = v\<rparr>],
              insert (s, e) found)"
  using assms
  by (auto split: sum.splits prod.splits option.splits if_splits)

lemma loop_body_inv:
  assumes body: "loop_body loads content pos st = Inr st'"
    and inv: "loop_inv loads content st"
  shows "loop_inv loads content st'"
    and "snd st \<subseteq> snd st'"
    and "extract_json_object content pos = Inr (Some text, s, e) \<Longrightarrow> text \<noteq> [] \<Longrightarrow>
         (s, e) \<in> snd st'"
    and "k \<in> snd st' \<Longrightarrow> k \<in> snd st \<or>
         (\<exists>text. extract_json_object content pos = Inr (Some text, fst k, snd k))"
proof -
  obtain results found where st: "st = (results, found)" by (cases st)
  from body have body': "loop_body loads content pos (results, found) = Inr st'"
    by (simp add: st)
  have "loop_inv loads content st' \<and> snd st \<subseteq> snd st' \<and>
        (extract_json_object content pos = Inr (Some text, s, e) \<longrightarrow> text \<noteq> [] \<longrightarrow>
           (s, e) \<in> snd st') \<and>
        (k \<in> snd st' \<longrightarrow> k \<in> snd st \<or>
           (\<exists>text. extract_json_object content pos = Inr (Some text, fst k, snd k)))"
    using body'
  proof (cases rule: loop_body_cases)
    case skip
    with inv st show ?thesis by auto
  next
    case (invalid text' s' e')
    from invalid(1) have "text' = str_slice content s' (e' + 1)"
      by (rule extract_json_object_text)
    with invalid(4) inv st have "loop_inv loads content (results, insert (s', e') found)"
      by (simp add: loop_inv_skip)
    with invalid st show ?thesis by auto
  next
    case (append text' s' e' v)
    from append(1) have "text' = str_slice content s' (e' + 1)"
      by (rule extract_json_object_text)
    with append(3,4) inv st
    have "loop_inv loads content
            (results @ [\<lparr>first_line = str_int s', last_line = str_int e', data = v\<rparr>],
             insert (s', e') found)"
      by (simp add: loop_inv_append)
    with append st show ?thesis by auto
  qed
  then show "loop_inv loads content st'"
    and "snd st \<subseteq> snd st'"
    and "extract_json_object content pos = Inr (Some text, s, e) \<Longrightarrow> text \<noteq> [] \<Longrightarrow>
         (s, e) \<in> snd st'"
    and "k \<in> snd st' \<Longrightarrow> k \<in> snd st \<or>
         (\<exists>text. extract_json_object content pos = Inr (Some text, fst k, snd k))"
    by blast+
qed

lemma main_loop_inv:
  assumes "main_loop loads content positions st = Inr st'"
    and "loop_inv loads content st"
  shows "loop_inv loads content st' \<and> snd st \<subseteq> snd st' \<and>
         (\<forall>pos \<in> set positions. \<forall>text s e.
            extract_json_object content pos = Inr (Some text, s, e) \<longrightarrow> text \<noteq> [] \<longrightarrow>
            (s, e) \<in> snd st') \<and>
         (\<forall>k \<in> snd st'. k \<in> snd st \<or>
            (\<exists>pos \<in> set positions. \<exists>text.
               extract_json_object content pos = Inr (Some text, fst k, snd k)))"
  using assms
proof (induction positions arbitrary: st)
  case Nil
  then show ?case by simp
next
  case (Cons pos rest)
  from Cons.prems(1) obtain st1 where body: "loop_body loads content pos st = Inr st1"
    and rest: "main_loop loads content rest st1 = Inr st'"
    by (auto split: sum.splits)
  note step = loop_body_inv [OF body Cons.prems(2)]
  from Cons.IH [OF rest step(1)]
  have inv: "loop_inv loads content st'" and mono: "snd st1 \<subseteq> snd st'"
    and added: "\<forall>pos \<in> set rest. \<forall>text s e.
            extract_json_object content pos = Inr (Some text, s, e) \<longrightarrow> text \<noteq> [] \<longrightarrow>
            (s, e) \<in> snd st'"
    and origin: "\<forall>k \<in> snd st'. k \<in> snd st1 \<or>
            (\<exists>pos \<in> set rest. \<exists>text.
               extract_json_object content pos = Inr (Some text, fst k, snd k))"
    by blast+
  have "\<forall>p \<in> set (pos # rest). \<forall>text s e.
            extract_json_object content p = Inr (Some text, s, e) \<longrightarrow> text \<noteq> [] \<longrightarrow>
            (s, e) \<in> snd st'"
    using added step(3) mono by auto
  moreover have "\<forall>k \<in> snd st'. k \<in> snd st \<or>
            (\<exists>p \<in> set (pos # rest). \<exists>text.
               extract_json_object content p = Inr (Some text, fst k, snd k))"
    using origin step(4) by fastforce
  moreover have "snd st \<subseteq> snd st'" using step(2) mono by blast
  ultimately show ?case using inv by blast
qed

lemma result_key_form:
  "r = \<lparr>first_line = str_int (fst k), last_line = str_int (snd k), data = v\<rparr> \<Longrightarrow>
   result_key r = key_text k"
  by (simp add: result_key_def key_text_def)

lemma count_distinct_key:
  "distinct (map f xs) \<Longrightarrow> x \<in> set xs \<Longrightarrow> length (filter (\<lambda>r. f r = f x) xs) = 1"
proof (induction xs)
  case Nil
  then show ?case by simp
next
  case (Cons a xs)
  show ?case
  proof (cases "f a = f x")
    case True
    with Cons.prems(1) have "\<forall>r \<in> set xs. f r \<noteq> f x"
      by (metis distinct.simps(2) image_eqI list.simps(9) set_map)
    then have "filter (\<lambda>r. f r = f x) xs = []" by (simp add: filter_empty_conv)
    with True show ?thesis by simp
  next
    case False
    with Cons.prems have "x \<in> set xs" "distinct (map f xs)" by auto
    with Cons.IH False show ?thesis by simp
  qed
qed

lemma extract_blocks_array:
  assumes "extract_blocks loads content target_id = JsonArray results"
  shows "\<exists>found. loop_inv loads content (results, found) \<and>
           (\<forall>pos \<in> set (find_all_positions content target_id). \<forall>text s e.
              extract_json_object content pos = Inr (Some text, s, e) \<longrightarrow> text \<noteq> [] \<longrightarrow>
              (s, e) \<in> found) \<and>
           (\<forall>k \<in> found. \<exists>pos \<in> set (find_all_positions content target_id). \<exists>text.
              extract_json_object content pos = Inr (Some text, fst k, snd k))"
proof (cases "find_all_positions content target_id = []")
  case True
  with assms have "results = []" by (simp add: extract_blocks_def)
  with True loop_inv_initial [of loads content] show ?thesis
    by (intro exI [of _ "{}"]) simp
next
  case False
  with assms obtain found where
    "main_loop loads content (find_all_positions content target_id) ([], {}) = Inr (results, found)"
    by (auto simp add: extract_blocks_def split: sum.splits)
  from main_loop_inv [OF this loop_inv_initial] show ?thesis
    by (intro exI [of _ found]) simp
qed








text \<open>
  C6, as amended. When the program prints an array, its elements have pairwise distinct
  pairs of offsets, and an object whose non-empty text is extracted at one or at several
  match offsets contributes exactly one element when its text parses as JSON, and none
  when it does not.
\<close>

theorem one_element_per_object:
  assumes "fs filename = Opened content"
    and "main loads fs filename target_id = JsonArray results"
  shows "distinct (map result_key results) \<and>
         (\<forall>pos text start end.
            pos \<in> set (find_all_positions content target_id) \<and>
            extract_json_object content pos = Inr (Some text, start, end) \<and> text \<noteq> [] \<longrightarrow>
            length (filter (\<lambda>r. result_key r = key_text (start, end)) results) =
              (if loads text = None then 0 else 1))"
proof -
  from assms have "extract_blocks loads content target_id = JsonArray results"
    by (simp add: main_opened)
  from extract_blocks_array [OF this] obtain found where
    inv: "loop_inv loads content (results, found)"
    and added: "\<forall>pos \<in> set (find_all_positions content target_id). \<forall>text s e.
              extract_json_object content pos = Inr (Some text, s, e) \<longrightarrow> text \<noteq> [] \<longrightarrow>
              (s, e) \<in> found"
    by blast
  from inv have d: "distinct (map result_key results)"
    by (simp add: loop_inv_def)
  have count: "length (filter (\<lambda>r. result_key r = key_text (s, e)) results) =
              (if loads body = None then 0 else 1)"
    if pos: "pos \<in> set (find_all_positions content target_id)"
      and ex: "extract_json_object content pos = Inr (Some body, s, e)"
      and nonempty: "body \<noteq> []" for pos body s e
  proof -
    from added pos ex nonempty have found: "(s, e) \<in> found" by blast
    from ex have body: "body = str_slice content s (e + 1)"
      by (rule extract_json_object_text)
    show ?thesis
    proof (cases "loads body")
      case None
      have "result_key r \<noteq> key_text (s, e)" if "r \<in> set results" for r
      proof
        assume eq: "result_key r = key_text (s, e)"
        from inv that obtain k where
          parsed: "loads (str_slice content (fst k) (snd k + 1)) = Some (data r)"
          and form: "r = \<lparr>first_line = str_int (fst k), last_line = str_int (snd k), data = data r\<rparr>"
          unfolding loop_inv_def by fastforce
        from form have "result_key r = key_text k" by (rule result_key_form)
        with eq have "k = (s, e)" by (simp add: key_text_inj)
        with parsed body None show False by simp
      qed
      then have "filter (\<lambda>r. result_key r = key_text (s, e)) results = []"
        by (simp add: filter_empty_conv)
      with None show ?thesis by simp
    next
      case (Some v)
      with inv found body have "key_text (s, e) \<in> result_key ` set results"
        unfolding loop_inv_def by fastforce
      then obtain r where "r \<in> set results" and "result_key r = key_text (s, e)"
        by auto
      with count_distinct_key [OF d, of r] Some show ?thesis by simp
    qed
  qed
  from d count show ?thesis by blast
qed

theorem one_element_per_object_witness:
  \<open>single_file ''votes.json'' ''{"id": "1", "id": "1"}'' ''votes.json'' =
     Opened ''{"id": "1", "id": "1"}'' \<and>
   main json_loads (single_file ''votes.json'' ''{"id": "1", "id": "1"}'') ''votes.json'' ''1'' =
     JsonArray [\<lparr>first_line = ''0'', last_line = ''21'',
                 data = JObject [(''id'', JString ''1''), (''id'', JString ''1'')]\<rparr>] \<and>
   find_all_positions ''{"id": "1", "id": "1"}'' ''1'' = [1, 12] \<and>
   extract_json_object ''{"id": "1", "id": "1"}'' 1 =
     Inr (Some ''{"id": "1", "id": "1"}'', 0, 21) \<and>
   extract_json_object ''{"id": "1", "id": "1"}'' 12 =
     Inr (Some ''{"id": "1", "id": "1"}'', 0, 21) \<and>
   length (filter (\<lambda>r. result_key r = key_text (0, 21))
     [\<lparr>first_line = ''0'', last_line = ''21'',
       data = JObject [(''id'', JString ''1''), (''id'', JString ''1'')]\<rparr>]) = 1\<close>
proof -
  let ?doc = \<open>''{"id": "1", "id": "1"}''\<close>
  let ?out = "[\<lparr>first_line = ''0'', last_line = ''21'',
                 data = JObject [(''id'', JString ''1''), (''id'', JString ''1'')]\<rparr>]"
  have opened: "single_file ''votes.json'' ?doc ''votes.json'' = Opened ?doc"
    by (simp add: single_file_def)
  have printed: "main json_loads (single_file ''votes.json'' ?doc) ''votes.json'' ''1'' =
      JsonArray ?out"
    by code_simp
  have positions: "find_all_positions ?doc ''1'' = [1, 12]"
    by code_simp
  have first: "extract_json_object ?doc 1 = Inr (Some ?doc, 0, 21)"
    by code_simp
  have second: "extract_json_object ?doc 12 = Inr (Some ?doc, 0, 21)"
    by code_simp
  have parsed: "json_loads ?doc \<noteq> None"
    by code_simp
  from one_element_per_object [where fs = "single_file ''votes.json'' ?doc"
      and filename = "''votes.json''" and loads = json_loads and target_id = "''1''",
      OF opened printed]
  have "\<forall>pos text start end.
          pos \<in> set (find_all_positions ?doc ''1'') \<and>
          extract_json_object ?doc pos = Inr (Some text, start, end) \<and> text \<noteq> [] \<longrightarrow>
          length (filter (\<lambda>r. result_key r = key_text (start, end)) ?out) =
            (if json_loads text = None then 0 else 1)"
    by (rule conjunct2)
  from this [rule_format, of 12 ?doc 0 21] positions second parsed
  have "length (filter (\<lambda>r. result_key r = key_text (0, 21)) ?out) = 1"
    by simp
  with opened printed positions first second show ?thesis
    by (intro conjI)
qed

text \<open>
  C6 as stated fails: in the document below, in which a comma is missing, the literal
  occurs at the offsets 1 and 11, both extractions give the whole document with the
  offsets \<open>(0, 20)\<close>, and since this text is not valid JSON the object contributes no
  element.
\<close>

theorem unparsed_object_contributes_nothing:
  \<open>find_all_positions ''{"id": "1" "id": "1"}'' ''1'' = [1, 11] \<and>
   extract_json_object ''{"id": "1" "id": "1"}'' 1 = Inr (Some ''{"id": "1" "id": "1"}'', 0, 20) \<and>
   extract_json_object ''{"id": "1" "id": "1"}'' 11 = Inr (Some ''{"id": "1" "id": "1"}'', 0, 20) \<and>
   main json_loads (single_file ''votes.json'' ''{"id": "1" "id": "1"}'') ''votes.json'' ''1'' =
     JsonArray []\<close>
  by code_simp

section \<open>Inputs on which the code departs from its description\<close>

text \<open>
  C1 fails on the code. The document below is one balanced block from offset 0 to
  offset 26, and the match of the id \<open>42\<close>, at offset 16, lies strictly inside it. The
  backward scan stops at the opening brace of the nested object at offset 6, which is
  already closed, while the forward scan finds the closing brace at offset 26: the text
  returned starts at offset 6 and is no block of the document. The extraction returns
  the enclosing block when no opening brace lies between the opening brace of the block
  and the offset (\<open>extract_json_object_block\<close>).
\<close>

theorem extract_after_nested_object:
  \<open>balanced_block ''{"a": {"x": 1}, "id": "42"}'' 0 26 \<and>
   find_all_positions ''{"a": {"x": 1}, "id": "42"}'' ''42'' = [16] \<and>
   extract_json_object ''{"a": {"x": 1}, "id": "42"}'' 16 =
     Inr (Some ''{"x": 1}, "id": "42"}'', 6, 26)\<close>
  by code_simp

text \<open>
  C2 fails on the code. In a document whose last object is not closed, the forward scan
  steps to the length of the document and indexes there: the extraction raises
  \<^verbatim>\<open>IndexError\<close> instead of returning \<open>(None, -1, -1)\<close>, and the program prints the
  error object for it. This is so at every offset after which the depth does not return
  to \<open>0\<close> (\<open>extract_json_object_unclosed\<close>), and no input makes the extraction return
  \<open>(None, -1, -1)\<close> (\<open>never_not_found\<close>).
\<close>

theorem extract_truncated_document:
  \<open>find_all_positions ''{"id": "7"'' ''7'' = [1] \<and>
   extract_json_object ''{"id": "7"'' 1 = Inl IndexError \<and>
   extract_blocks json_loads ''{"id": "7"'' ''7'' = JsonError ''string index out of range''\<close>
  by code_simp

text \<open>
  C3 fails on the code. When no opening brace precedes the offset, the backward scan
  ends at \<open>-1\<close> (\<open>backward_scan_none\<close>) and the extraction goes on: if a closing brace
  follows, it returns a text with the start offset \<open>-1\<close>; if none follows, the forward
  scan indexes at the length of the document and raises \<^verbatim>\<open>IndexError\<close>. The backward
  scan itself stays inside the document (\<open>backward_scan_safe\<close>).
\<close>

theorem extract_without_opening_brace:
  \<open>backward_scan ''"id": "1"}'' 0 = Inr (- 1) \<and>
   extract_json_object ''"id": "1"}'' 0 = Inr (Some ''}'', - 1, 9) \<and>
   extract_json_object ''"id": "1"'' 0 = Inl IndexError\<close>
  by code_simp

text \<open>
  C8 fails on the code. The document below is valid JSON without a brace inside a
  string. The match of the id \<open>1\<close>, at offset 10, lies in the outer object; the
  extraction returns a text, this text is not valid JSON, and the program prints the
  empty array.
\<close>

theorem extracted_text_not_json:
  \<open>json_loads ''{"a": {}, "id": "1"}'' =
     Some (JObject [(''a'', JObject []), (''id'', JString ''1'')]) \<and>
   find_all_positions ''{"a": {}, "id": "1"}'' ''1'' = [10] \<and>
   extract_json_object ''{"a": {}, "id": "1"}'' 10 = Inr (Some ''{}, "id": "1"}'', 6, 19) \<and>
   json_loads ''{}, "id": "1"}'' = None \<and>
   extract_blocks json_loads ''{"a": {}, "id": "1"}'' ''1'' = JsonArray []\<close>
  by code_simp

end
